theory Spec2Isabelle
  imports Complex_Main
begin

section \<open>Pavement Condition Index calculator\<close>

text \<open>
  A shallow embedding of the PCI calculator (\<^verbatim>\<open>curves.py\<close>, \<^verbatim>\<open>distresses.py\<close>,
  \<^verbatim>\<open>calculator.py\<close>). Python floats are idealised as the reals: rounding, infinities
  and NaN are outside the model. Every \<^verbatim>\<open>raise\<close> of the source is a value \<open>Inl e\<close>.
\<close>

subsection \<open>Errors\<close>

text \<open>
  All constructors but \<open>IndexError\<close> stand for a Python \<^verbatim>\<open>ValueError\<close>; the constructor
  records which \<^verbatim>\<open>raise\<close> produced it. \<open>EmptyMax\<close> is the \<^verbatim>\<open>ValueError\<close> of the builtin
  \<^verbatim>\<open>max\<close> on an empty sequence.
\<close>

datatype error =
    EmptyPoints
  | TooFewPoints
  | NotIncreasing
  | NegativeValue
  | NoDeductCurve int "string option"
  | NoCDVCurve int
  | EmptyMax
  | SampleAreaNotPositive
  | IndexError

type_synonym point = "real \<times> real"

subsection \<open>Curve interpolation (curves.py)\<close>

text \<open>
  \<^verbatim>\<open>points[i]\<close> with an integer index: an index in \<open>[0, len)\<close> reads that position,
  one in \<open>[-len, 0)\<close> reads position \<open>len + i\<close>, and any other index raises.
\<close>

definition py_get :: "'a list \<Rightarrow> int \<Rightarrow> error + 'a" where
  "py_get xs i =
     (if 0 \<le> i \<and> i < int (length xs) then Inr (xs ! nat i)
      else if - int (length xs) \<le> i \<and> i < 0 then Inr (xs ! nat (int (length xs) + i))
      else Inl IndexError)"

text \<open>
  \<^verbatim>\<open>bisect.bisect_right(a, x)\<close> of the standard library: the binary search
  \<^verbatim>\<open>while lo < hi: mid = (lo + hi) // 2; if x < a[mid]: hi = mid else: lo = mid + 1\<close>,
  started at \<open>lo = 0\<close>, \<open>hi = len(a)\<close>.
\<close>

function bisect_right_loop :: "real list \<Rightarrow> real \<Rightarrow> nat \<Rightarrow> nat \<Rightarrow> nat" where
  "bisect_right_loop a x lo hi =
     (if lo < hi
      then (let mid = (lo + hi) div 2
            in if x < a ! mid then bisect_right_loop a x lo mid
               else bisect_right_loop a x (mid + 1) hi)
      else lo)"
  by pat_completeness auto
termination
  by (relation "measure (\<lambda>(a, x, lo, hi). hi - lo)") auto

declare bisect_right_loop.simps [simp del]

definition bisect_right :: "real list \<Rightarrow> real \<Rightarrow> nat" where
  "bisect_right a x = bisect_right_loop a x 0 (length a)"

definition interpolate_curve :: "point list \<Rightarrow> real \<Rightarrow> error + real" where
  "interpolate_curve points x =
     (if points = [] then Inl EmptyPoints
      else if x \<le> fst (hd points) then Inr (snd (hd points))
      else if x \<ge> fst (last points) then Inr (snd (last points))
      else
        (let x_values = map fst points;
             idx = bisect_right x_values x
         in case py_get points (int idx - 1) of
              Inl e \<Rightarrow> Inl e
            | Inr (x0, y0) \<Rightarrow>
                (case py_get points (int idx) of
                   Inl e \<Rightarrow> Inl e
                 | Inr (x1, y1) \<Rightarrow>
                     if x1 = x0 then Inr y0
                     else (let t = (x - x0) / (x1 - x0) in Inr (y0 + t * (y1 - y0))))))"

text \<open>\<^verbatim>\<open>validate_curve\<close>: the checks in the order of the source.\<close>

fun increasing_x :: "point list \<Rightarrow> bool" where
  "increasing_x [] = True"
| "increasing_x [p] = True"
| "increasing_x (p # q # ps) = (\<not> fst q \<le> fst p \<and> increasing_x (q # ps))"

definition validate_curve :: "point list \<Rightarrow> error + bool" where
  "validate_curve points =
     (if points = [] then Inl EmptyPoints
      else if length points < 2 then Inl TooFewPoints
      else if \<not> increasing_x points then Inl NotIncreasing
      else if list_ex (\<lambda>(x, y). x < 0 \<or> y < 0) points then Inl NegativeValue
      else Inr True)"

text \<open>
  The constructors of \<^verbatim>\<open>DeductCurve\<close> and \<^verbatim>\<open>CDVCurve\<close> keep the points sorted by x
  (\<^verbatim>\<open>sorted(points, key=lambda p: p[0])\<close>, a stable sort) and validate them. The key
  fields (\<^verbatim>\<open>distress_id\<close>, \<^verbatim>\<open>severity\<close>, \<^verbatim>\<open>q\<close>) are the table keys below.
\<close>

definition make_curve :: "point list \<Rightarrow> error + point list" where
  "make_curve points =
     (let ps = sort_key fst points
      in case validate_curve ps of Inl e \<Rightarrow> Inl e | Inr _ \<Rightarrow> Inr ps)"

definition clamp_0_100 :: "real \<Rightarrow> real" where
  "clamp_0_100 v = max 0 (min 100 v)"

definition get_deduct_value_curve :: "point list \<Rightarrow> real \<Rightarrow> error + real" where
  "get_deduct_value_curve points density =
     (case interpolate_curve points density of
        Inl e \<Rightarrow> Inl e
      | Inr dv \<Rightarrow> Inr (clamp_0_100 dv))"

definition get_cdv_curve :: "point list \<Rightarrow> real \<Rightarrow> error + real" where
  "get_cdv_curve points tdv =
     (case interpolate_curve points tdv of
        Inl e \<Rightarrow> Inl e
      | Inr cdv \<Rightarrow> Inr (clamp_0_100 cdv))"


subsection \<open>Distress catalogue (distresses.py)\<close>

datatype Severity = LOW | MEDIUM | HIGH

fun severity_value :: "Severity \<Rightarrow> string" where
  "severity_value LOW = ''L''"
| "severity_value MEDIUM = ''M''"
| "severity_value HIGH = ''H''"

datatype DistressUnit = AREA | LINEAR | COUNT

record DistressType =
  distress_id :: int
  distress_name :: string
  unit :: DistressUnit
  has_severity :: bool

definition calculate_density :: "DistressType \<Rightarrow> real \<Rightarrow> real \<Rightarrow> error + real" where
  "calculate_density dt quantity sample_area =
     (if sample_area \<le> 0 then Inl SampleAreaNotPositive
      else Inr ((quantity / sample_area) * 100))"

text \<open>
  \<^verbatim>\<open>DistressObservation\<close>. The constructor's checks (a severity exactly when the
  distress type has one, a non-negative quantity) restrict the records a caller can build;
  the engine reads the three fields and nothing below depends on the checks.
\<close>

record DistressObservation =
  distress_type :: DistressType
  severity :: "Severity option"
  quantity :: real

subsection \<open>The PCI engine (calculator.py)\<close>

datatype PCIRating = GOOD | SATISFACTORY | FAIR | POOR | VERY_POOR | SERIOUS | FAILED

definition get_pci_rating :: "real \<Rightarrow> PCIRating" where
  "get_pci_rating p =
     (if p \<ge> 85 then GOOD
      else if p \<ge> 70 then SATISFACTORY
      else if p \<ge> 55 then FAIR
      else if p \<ge> 40 then POOR
      else if p \<ge> 25 then VERY_POOR
      else if p \<ge> 10 then SERIOUS
      else FAILED)"

record PCIResult =
  pci :: real
  rating :: PCIRating
  deduct_values :: "real list"
  max_cdv :: real
  iteration_cdvs :: "real list"

text \<open>
  The calculator owns two dictionaries. A dictionary is an association list read with
  \<open>map_of\<close>; its keys are \<open>map fst\<close>. The values are the sorted, validated point lists
  of the \<^verbatim>\<open>DeductCurve\<close> and \<^verbatim>\<open>CDVCurve\<close> objects.
\<close>

record PCICalculator =
  deduct_curves :: "((int \<times> string option) \<times> point list) list"
  cdv_curves :: "(int \<times> point list) list"

text \<open>The builtin \<^verbatim>\<open>max\<close> of a sequence: a \<^verbatim>\<open>ValueError\<close> on the empty one.\<close>

fun py_max :: "'a::linorder list \<Rightarrow> error + 'a" where
  "py_max [] = Inl EmptyMax"
| "py_max (x # xs) = Inr (fold max xs x)"

text \<open>\<^verbatim>\<open>load_deduct_curves\<close> and \<^verbatim>\<open>load_cdv_curves\<close>: the table is rebuilt from scratch,
  one constructor call per entry; the first invalid curve raises.\<close>

fun load_curves :: "('k \<times> point list) list \<Rightarrow> error + ('k \<times> point list) list" where
  "load_curves [] = Inr []"
| "load_curves ((k, points) # rest) =
     (case make_curve points of
        Inl e \<Rightarrow> Inl e
      | Inr ps \<Rightarrow> (case load_curves rest of Inl e \<Rightarrow> Inl e | Inr t \<Rightarrow> Inr ((k, ps) # t)))"

definition get_deduct_value ::
  "PCICalculator \<Rightarrow> int \<Rightarrow> Severity option \<Rightarrow> real \<Rightarrow> error + real" where
  "get_deduct_value calc did sev density =
     (let severity_key = map_option severity_value sev;
          key = (did, severity_key)
      in case map_of (deduct_curves calc) key of
           None \<Rightarrow> Inl (NoDeductCurve did severity_key)
         | Some points \<Rightarrow> get_deduct_value_curve points density)"

definition get_cdv :: "PCICalculator \<Rightarrow> real \<Rightarrow> int \<Rightarrow> error + real" where
  "get_cdv calc tdv q =
     (case py_max (map fst (cdv_curves calc)) of
        Inl e \<Rightarrow> Inl e
      | Inr largest \<Rightarrow>
          (let q_clamped = min q largest;
               q_clamped = max 1 q_clamped
           in case map_of (cdv_curves calc) q_clamped of
                None \<Rightarrow> Inl (NoCDVCurve q_clamped)
              | Some points \<Rightarrow> get_cdv_curve points tdv))"

text \<open>\<^verbatim>\<open>int(m)\<close> on a float truncates toward zero.\<close>

definition py_int :: "real \<Rightarrow> int" where
  "py_int r = (if r \<ge> 0 then \<lfloor>r\<rfloor> else \<lceil>r\<rceil>)"

definition MAX_DEDUCT_VALUES_FORMULA :: bool where
  "MAX_DEDUCT_VALUES_FORMULA = True"

definition calculate_max_deduct_values :: "real \<Rightarrow> int" where
  "calculate_max_deduct_values highest_dv =
     (if \<not> MAX_DEDUCT_VALUES_FORMULA then 100
      else (let m = 1 + (9 / 98) * (100 - highest_dv) in max 1 (py_int m)))"

text \<open>Step 1: one deduct value per observation, the positive ones kept in order.\<close>

fun deduct_values_loop ::
  "PCICalculator \<Rightarrow> real \<Rightarrow> DistressObservation list \<Rightarrow> real list \<Rightarrow> error + real list" where
  "deduct_values_loop calc sample_area [] acc = Inr acc"
| "deduct_values_loop calc sample_area (obs # rest) acc =
     (case calculate_density (distress_type obs) (quantity obs) sample_area of
        Inl e \<Rightarrow> Inl e
      | Inr density \<Rightarrow>
          (case get_deduct_value calc (distress_id (distress_type obs)) (severity obs) density of
             Inl e \<Rightarrow> Inl e
           | Inr dv \<Rightarrow>
               deduct_values_loop calc sample_area rest (if dv > 0 then acc @ [dv] else acc)))"

text \<open>
  The inner \<^verbatim>\<open>for i in range(len(dvs) - 1, -1, -1)\<close>: \<open>replace_lowest n dvs\<close> visits the
  indices \<open>n - 1, ..., 0\<close> and stops at the first entry above 2.0, which it overwrites.
\<close>

fun replace_lowest :: "nat \<Rightarrow> real list \<Rightarrow> real list" where
  "replace_lowest 0 dvs = dvs"
| "replace_lowest (Suc i) dvs =
     (if dvs ! i > 2 then dvs[i := 2] else replace_lowest i dvs)"

definition count_q :: "real list \<Rightarrow> nat" where
  "count_q dvs = length (filter (\<lambda>dv. dv > 2) dvs)"


text \<open>
  Step 3, the \<^verbatim>\<open>while True\<close> loop, as state passing: the working list \<open>dvs\<close> and the
  history \<open>cdvs\<close> go in, and their final values come out. A failing \<^verbatim>\<open>get_cdv\<close> leaves
  the loop with its error. Each further round has one entry above 2.0 fewer, which is the
  measure of the termination proof.
\<close>

function cdv_iteration ::
  "PCICalculator \<Rightarrow> real list \<Rightarrow> real list \<Rightarrow> error + (real list \<times> real list)" where
  "cdv_iteration calc dvs cdvs =
     (let q = count_q dvs;
          q = (if q = 0 then 1 else q);
          tdv = sum_list dvs
      in case get_cdv calc tdv (int q) of
           Inl e \<Rightarrow> Inl e
         | Inr cdv \<Rightarrow>
             (let cdvs = cdvs @ [cdv]
              in if q \<le> 1 then Inr (dvs, cdvs)
                 else cdv_iteration calc (replace_lowest (length dvs) dvs) cdvs))"
  by pat_completeness auto
termination
proof (relation "measure (\<lambda>(calc, dvs, cdvs). count_q dvs)")
  show "wf (measure (\<lambda>(calc, dvs, cdvs). count_q dvs))" by simp
next
  fix calc :: PCICalculator and dvs cdvs cdvs' :: "real list" and q0 q :: nat
  assume q: "q0 = count_q dvs" "q = (if q0 = 0 then 1 else q0)" "\<not> q \<le> 1"
  have upd: "count_q (dvs[i := 2]) < count_q dvs" if "i < length dvs" "dvs ! i > 2" for i
  proof -
    have "count_q (take i dvs @ dvs ! i # drop (Suc i) dvs)
            = Suc (count_q (take i dvs @ 2 # drop (Suc i) dvs))"
      using that(2) by (simp add: count_q_def)
    then show ?thesis
      using that(1) by (simp add: upd_conv_take_nth_drop id_take_nth_drop [symmetric])
  qed
  have dec: "count_q (replace_lowest n dvs) < count_q dvs"
    if "n \<le> length dvs" "\<exists>i<n. dvs ! i > 2" for n
    using that
  proof (induction n)
    case 0
    then show ?case by simp
  next
    case (Suc n)
    show ?case
    proof (cases "dvs ! n > 2")
      case True
      with Suc.prems(1) show ?thesis by (simp add: upd)
    next
      case False
      with Suc.prems(2) have "\<exists>i<n. dvs ! i > 2" by (auto simp: less_Suc_eq)
      with Suc.IH Suc.prems(1) False show ?thesis by simp
    qed
  qed
  from q have "filter (\<lambda>dv. dv > 2) dvs \<noteq> []"
    by (auto simp: count_q_def split: if_splits)
  then obtain v where "v \<in> set dvs" "v > 2"
    by (auto simp: filter_empty_conv)
  then have "\<exists>i<length dvs. dvs ! i > 2"
    by (auto simp: in_set_conv_nth)
  then have "count_q (replace_lowest (length dvs) dvs) < count_q dvs"
    by (intro dec) auto
  then show "((calc, replace_lowest (length dvs) dvs, cdvs'), calc, dvs, cdvs)
               \<in> measure (\<lambda>(calc, dvs, cdvs). count_q dvs)"
    by simp
qed

declare cdv_iteration.simps [simp del]

text \<open>
  List objects live in a heap, addressed by position; \<open>new_list\<close> allocates a fresh one.
  \<^verbatim>\<open>deduct_values[:max_dvs]\<close> and \<^verbatim>\<open>deduct_values.copy()\<close> each allocate.
\<close>

type_synonym heap = "real list list"

definition new_list :: "heap \<Rightarrow> real list \<Rightarrow> heap \<times> nat" where
  "new_list h v = (h @ [v], length h)"

definition perfect_result :: PCIResult where
  "perfect_result =
     \<lparr>pci = 100, rating = GOOD, deduct_values = [], max_cdv = 0, iteration_cdvs = []\<rparr>"

text \<open>
  \<^verbatim>\<open>calculate_sample_pci\<close>. \<open>a_dv\<close> is the object the name \<^verbatim>\<open>deduct_values\<close> is bound
  to after the slice, \<open>a_dvs\<close> the object of \<^verbatim>\<open>dvs\<close>; the loop mutates the object at
  \<open>a_dvs\<close> in place, and the result reads the object at \<open>a_dv\<close>. The slice bound is at
  least 1, so \<^verbatim>\<open>[:max_dvs]\<close> is \<open>take\<close>.
\<close>

definition calculate_sample_pci ::
  "PCICalculator \<Rightarrow> DistressObservation list \<Rightarrow> real \<Rightarrow> error + PCIResult" where
  "calculate_sample_pci calc observations sample_area =
     (if sample_area \<le> 0 then Inl SampleAreaNotPositive
      else if observations = [] then Inr perfect_result
      else
        (case deduct_values_loop calc sample_area observations [] of
           Inl e \<Rightarrow> Inl e
         | Inr collected \<Rightarrow>
             if collected = [] then Inr perfect_result
             else
               (let sorted_dvs = rev (sort collected);
                    max_dvs = calculate_max_deduct_values (hd sorted_dvs);
                    (h1, a_dv) = new_list [] (take (nat max_dvs) sorted_dvs);
                    (h2, a_dvs) = new_list h1 (h1 ! a_dv)
                in case cdv_iteration calc (h2 ! a_dvs) [] of
                     Inl e \<Rightarrow> Inl e
                   | Inr (dvs_final, cdvs) \<Rightarrow>
                       (let h3 = h2[a_dvs := dvs_final]
                        in case py_max cdvs of
                             Inl e \<Rightarrow> Inl e
                           | Inr mx \<Rightarrow>
                               (let p = 100 - mx;
                                    p = max 0 (min 100 p)
                                in Inr \<lparr>pci = p, rating = get_pci_rating p,
                                        deduct_values = h3 ! a_dv, max_cdv = mx,
                                        iteration_cdvs = cdvs\<rparr>)))))"

subsection \<open>Sections\<close>

record SampleUnit =
  unit_id :: string
  area :: real
  observations :: "DistressObservation list"

record PavementSection =
  section_id :: string
  sample_units :: "SampleUnit list"

fun weighted_sum_loop :: "PCICalculator \<Rightarrow> SampleUnit list \<Rightarrow> real \<Rightarrow> error + real" where
  "weighted_sum_loop calc [] weighted_sum = Inr weighted_sum"
| "weighted_sum_loop calc (su # rest) weighted_sum =
     (case calculate_sample_pci calc (observations su) (area su) of
        Inl e \<Rightarrow> Inl e
      | Inr result \<Rightarrow> weighted_sum_loop calc rest (weighted_sum + pci result * area su))"

definition calculate_section_pci :: "PavementSection \<Rightarrow> PCICalculator \<Rightarrow> error + real" where
  "calculate_section_pci section calc =
     (if sample_units section = [] then Inr 100
      else
        (let total_area = sum_list (map area (sample_units section))
         in if total_area = 0 then Inr 100
            else (case weighted_sum_loop calc (sample_units section) 0 of
                    Inl e \<Rightarrow> Inl e
                  | Inr weighted_sum \<Rightarrow> Inr (weighted_sum / total_area))))"


subsection \<open>The placeholder curve tables (curves.py)\<close>

definition EXAMPLE_DEDUCT_CURVES :: "((int \<times> string option) \<times> point list) list" where
  "EXAMPLE_DEDUCT_CURVES =
     [((1, Some ''L''), [(0, 0), (1, 6), (5, 18), (10, 26), (20, 34), (50, 44), (100, 52)]),
      ((1, Some ''M''), [(0, 0), (1, 12), (5, 32), (10, 44), (20, 56), (50, 72), (100, 84)]),
      ((1, Some ''H''), [(0, 0), (1, 18), (5, 42), (10, 56), (20, 70), (50, 88), (100, 100)]),
      ((3, Some ''L''), [(0, 0), (1, 2), (5, 6), (10, 10), (20, 15), (50, 22), (100, 30)]),
      ((3, Some ''M''), [(0, 0), (1, 4), (5, 12), (10, 18), (20, 26), (50, 38), (100, 50)]),
      ((3, Some ''H''), [(0, 0), (1, 8), (5, 20), (10, 30), (20, 42), (50, 60), (100, 78)]),
      ((10, Some ''L''), [(0, 0), (1, 2), (5, 6), (10, 10), (20, 14), (50, 20), (100, 28)]),
      ((10, Some ''M''), [(0, 0), (1, 5), (5, 14), (10, 22), (20, 32), (50, 46), (100, 62)]),
      ((10, Some ''H''), [(0, 0), (1, 10), (5, 26), (10, 38), (20, 52), (50, 72), (100, 90)]),
      ((13, Some ''L''), [(0, 0), (1/10, 8), (1/2, 18), (1, 24), (2, 32), (5, 42), (10, 52)]),
      ((13, Some ''M''), [(0, 0), (1/10, 15), (1/2, 32), (1, 42), (2, 54), (5, 70), (10, 84)]),
      ((13, Some ''H''), [(0, 0), (1/10, 22), (1/2, 48), (1, 62), (2, 78), (5, 94), (10, 100)]),
      ((15, Some ''L''), [(0, 0), (1, 4), (5, 10), (10, 14), (20, 20), (50, 28), (100, 36)]),
      ((15, Some ''M''), [(0, 0), (1, 8), (5, 20), (10, 30), (20, 42), (50, 58), (100, 74)]),
      ((15, Some ''H''), [(0, 0), (1, 14), (5, 34), (10, 48), (20, 64), (50, 84), (100, 98)]),
      ((19, Some ''L''), [(0, 0), (1, 1), (5, 3), (10, 5), (20, 8), (50, 14), (100, 20)]),
      ((19, Some ''M''), [(0, 0), (1, 4), (5, 10), (10, 16), (20, 24), (50, 36), (100, 50)]),
      ((19, Some ''H''), [(0, 0), (1, 8), (5, 20), (10, 32), (20, 46), (50, 66), (100, 86)])]"

definition EXAMPLE_CDV_CURVES :: "(int \<times> point list) list" where
  "EXAMPLE_CDV_CURVES =
     [(1, [(0, 0), (10, 10), (20, 20), (50, 50), (100, 100), (150, 100), (200, 100)]),
      (2, [(0, 0), (10, 8), (20, 15), (50, 40), (100, 72), (150, 88), (200, 96)]),
      (3, [(0, 0), (10, 6), (20, 12), (50, 32), (100, 58), (150, 76), (200, 88)]),
      (4, [(0, 0), (10, 5), (20, 10), (50, 26), (100, 48), (150, 66), (200, 80)]),
      (5, [(0, 0), (10, 4), (20, 8), (50, 22), (100, 42), (150, 58), (200, 72)]),
      (6, [(0, 0), (10, 4), (20, 7), (50, 19), (100, 37), (150, 52), (200, 66)]),
      (7, [(0, 0), (10, 3), (20, 6), (50, 17), (100, 33), (150, 47), (200, 60)])]"

text \<open>\<^verbatim>\<open>PCICalculator()\<close>: the constructor loads the placeholder tables.\<close>

definition new_calculator :: "error + PCICalculator" where
  "new_calculator =
     (case load_curves EXAMPLE_DEDUCT_CURVES of
        Inl e \<Rightarrow> Inl e
      | Inr d \<Rightarrow>
          (case load_curves EXAMPLE_CDV_CURVES of
             Inl e \<Rightarrow> Inl e
           | Inr c \<Rightarrow> Inr \<lparr>deduct_curves = d, cdv_curves = c\<rparr>))"

text \<open>The sample table of the catalogue that the examples below use.\<close>

definition alligator_cracking :: DistressType where
  "alligator_cracking =
     \<lparr>distress_id = 1, distress_name = ''Alligator Cracking'', unit = AREA, has_severity = True\<rparr>"

definition weathering :: DistressType where
  "weathering =
     \<lparr>distress_id = 19, distress_name = ''Weathering/Raveling'', unit = AREA, has_severity = True\<rparr>"


subsection \<open>Vocabulary of the properties\<close>

text \<open>The largest key of the CDV table, and the key \<^verbatim>\<open>get_cdv\<close> looks up for a given \<open>q\<close>.\<close>

definition largest_bucket :: "PCICalculator \<Rightarrow> int" where
  "largest_bucket calc = Max (fst ` set (cdv_curves calc))"

definition clamp_q :: "PCICalculator \<Rightarrow> int \<Rightarrow> int" where
  "clamp_q calc q = max 1 (min q (largest_bucket calc))"

text \<open>
  The same loop with a bound on the number of rounds: \<open>None\<close> when the bound is used up
  before the loop has left.
\<close>

primrec cdv_iteration_fuel ::
  "nat \<Rightarrow> PCICalculator \<Rightarrow> real list \<Rightarrow> real list \<Rightarrow> (error + (real list \<times> real list)) option" where
  "cdv_iteration_fuel 0 calc dvs cdvs = None"
| "cdv_iteration_fuel (Suc n) calc dvs cdvs =
     (let q = count_q dvs;
          q = (if q = 0 then 1 else q);
          tdv = sum_list dvs
      in case get_cdv calc tdv (int q) of
           Inl e \<Rightarrow> Some (Inl e)
         | Inr cdv \<Rightarrow>
             (let cdvs = cdvs @ [cdv]
              in if q \<le> 1 then Some (Inr (dvs, cdvs))
                 else cdv_iteration_fuel n calc (replace_lowest (length dvs) dvs) cdvs))"

text \<open>
  The cap in the words of the specification: \<open>m = max(1, floor(1 + (9/98) (100 - HDV)))\<close>
  with \<open>HDV\<close> the highest deduct value, and the capped set, the descending deduct values cut
  to their first \<open>m\<close> entries.
\<close>

definition max_allowed :: "real \<Rightarrow> int" where
  "max_allowed hdv = max 1 \<lfloor>1 + (9 / 98) * (100 - hdv)\<rfloor>"

definition capped_deduct_values :: "real list \<Rightarrow> real list" where
  "capped_deduct_values collected =
     take (nat (max_allowed (Max (set collected)))) (rev (sort collected))"



text \<open>The calculator with the placeholder tables, and the first sample of the demo script.\<close>

definition example_calculator :: PCICalculator where
  "example_calculator = \<lparr>deduct_curves = EXAMPLE_DEDUCT_CURVES, cdv_curves = EXAMPLE_CDV_CURVES\<rparr>"

definition example_observations :: "DistressObservation list" where
  "example_observations =
     [\<lparr>distress_type = alligator_cracking, severity = Some MEDIUM, quantity = 150\<rparr>,
      \<lparr>distress_type = weathering, severity = Some LOW, quantity = 500\<rparr>]"

definition example_result :: PCIResult where
  "example_result =
     \<lparr>pci = 318 / 5, rating = FAIR, deduct_values = [172 / 5, 8], max_cdv = 182 / 5,
      iteration_cdvs = [101 / 3, 182 / 5]\<rparr>"

text \<open>The result of one sample unit of a section, and two small sections.\<close>

definition sample_result :: "PCICalculator \<Rightarrow> SampleUnit \<Rightarrow> error + PCIResult" where
  "sample_result calc su = calculate_sample_pci calc (observations su) (area su)"

definition mixed_section :: PavementSection where
  "mixed_section =
     \<lparr>section_id = ''S'',
      sample_units =
        [\<lparr>unit_id = ''SU-000'', area = 0, observations = []\<rparr>,
         \<lparr>unit_id = ''SU-001'', area = 2500, observations = example_observations\<rparr>]\<rparr>"







section \<open>Properties\<close>

subsection \<open>Interpolation\<close>










subsection \<open>CDV lookup\<close>

lemma py_max_Max: "xs \<noteq> [] \<Longrightarrow> py_max xs = Inr (Max (set xs))"
  by (cases xs) (simp_all add: Max.set_eq_fold [symmetric])

lemma get_cdv_unfold:
  assumes "cdv_curves calc \<noteq> []"
  shows "get_cdv calc tdv q =
     (case map_of (cdv_curves calc) (max 1 (min q (Max (fst ` set (cdv_curves calc))))) of
        None \<Rightarrow> Inl (NoCDVCurve (max 1 (min q (Max (fst ` set (cdv_curves calc))))))
      | Some points \<Rightarrow> get_cdv_curve points tdv)"
  using assms by (simp add: get_cdv_def py_max_Max Let_def)

lemma Max_key_registered:
  assumes "curves \<noteq> []"
  shows "\<exists>points. map_of curves (Max (fst ` set curves)) = Some points"
proof -
  have "Max (fst ` set curves) \<in> fst ` set curves"
    using assms by (intro Max_in) auto
  then show ?thesis by (auto dest: weak_map_of_SomeI)
qed

text \<open>
  Claim C7, as stated, fails: with curves registered for the buckets 1 and 3 only, the
  request \<open>q = 2\<close> lies between 1 and the largest bucket, and \<^verbatim>\<open>get_cdv\<close> raises instead
  of moving to a neighbouring bucket.
\<close>

theorem get_cdv_sparse_table_counterexample:
  "py_max (map fst [(1 :: int, [(0, 0), (10, 10)] :: point list), (3, [(0, 0), (10, 6)])]) = Inr 3 \<and>
   validate_curve [(0, 0), (10, 10)] = Inr True \<and> validate_curve [(0, 0), (10, 6)] = Inr True \<and>
   get_cdv \<lparr>deduct_curves = [], cdv_curves = [(1, [(0, 0), (10, 10)]), (3, [(0, 0), (10, 6)])]\<rparr> 10 2
     = Inl (NoCDVCurve 2)"
  by (simp add: get_cdv_def validate_curve_def)


text \<open>
  Claim C7, amended. On a non-empty CDV table the key looked up is \<open>max 1 (min q largest)\<close>:
  it is at least 1, at most the largest bucket when that is at least 1, and equal to \<open>q\<close>
  itself for \<open>1 \<le> q \<le> largest\<close>. A \<open>q\<close> above the largest bucket takes the largest
  bucket's curve. When no curve is registered under the looked-up key the call raises the
  lookup error; no other curve is substituted. When every bucket from 1 to the largest is
  registered, no \<open>q\<close> raises the lookup error.
\<close>

theorem get_cdv_clamp:
  assumes "cdv_curves calc \<noteq> []"
  shows "get_cdv calc tdv q =
           (case map_of (cdv_curves calc) (clamp_q calc q) of
              None \<Rightarrow> Inl (NoCDVCurve (clamp_q calc q))
            | Some points \<Rightarrow> get_cdv_curve points tdv) \<and>
         1 \<le> clamp_q calc q \<and>
         (1 \<le> largest_bucket calc \<longrightarrow> clamp_q calc q \<le> largest_bucket calc) \<and>
         (1 \<le> q \<and> q \<le> largest_bucket calc \<longrightarrow> clamp_q calc q = q) \<and>
         (1 \<le> largest_bucket calc \<and> largest_bucket calc < q \<longrightarrow>
           (\<exists>points. map_of (cdv_curves calc) (largest_bucket calc) = Some points \<and>
                     get_cdv calc tdv q = get_cdv_curve points tdv)) \<and>
         ((\<forall>k. 1 \<le> k \<and> k \<le> max 1 (largest_bucket calc) \<longrightarrow> k \<in> fst ` set (cdv_curves calc)) \<longrightarrow>
           (\<exists>points. map_of (cdv_curves calc) (clamp_q calc q) = Some points \<and>
                     get_cdv calc tdv q = get_cdv_curve points tdv))"
proof -
  have u: "get_cdv calc tdv q =
           (case map_of (cdv_curves calc) (clamp_q calc q) of
              None \<Rightarrow> Inl (NoCDVCurve (clamp_q calc q))
            | Some points \<Rightarrow> get_cdv_curve points tdv)"
    unfolding clamp_q_def largest_bucket_def by (rule get_cdv_unfold[OF assms])
  have above: "\<exists>points. map_of (cdv_curves calc) (largest_bucket calc) = Some points \<and>
                     get_cdv calc tdv q = get_cdv_curve points tdv"
    if "1 \<le> largest_bucket calc" "largest_bucket calc < q"
  proof -
    from that have "clamp_q calc q = largest_bucket calc" by (simp add: clamp_q_def)
    moreover obtain points where "map_of (cdv_curves calc) (largest_bucket calc) = Some points"
      using Max_key_registered[OF assms] by (auto simp: largest_bucket_def)
    ultimately show ?thesis using u by simp
  qed
  have full: "\<exists>points. map_of (cdv_curves calc) (clamp_q calc q) = Some points \<and>
                     get_cdv calc tdv q = get_cdv_curve points tdv"
    if all: "\<forall>k. 1 \<le> k \<and> k \<le> max 1 (largest_bucket calc) \<longrightarrow> k \<in> fst ` set (cdv_curves calc)"
  proof -
    have "1 \<le> clamp_q calc q \<and> clamp_q calc q \<le> max 1 (largest_bucket calc)"
      by (simp add: clamp_q_def)
    with all have "clamp_q calc q \<in> fst ` set (cdv_curves calc)" by blast
    then obtain points where "map_of (cdv_curves calc) (clamp_q calc q) = Some points"
      by (auto dest: weak_map_of_SomeI)
    with u show ?thesis by simp
  qed
  have "1 \<le> clamp_q calc q" by (simp add: clamp_q_def)
  moreover have "1 \<le> largest_bucket calc \<longrightarrow> clamp_q calc q \<le> largest_bucket calc"
    by (simp add: clamp_q_def)
  moreover have "1 \<le> q \<and> q \<le> largest_bucket calc \<longrightarrow> clamp_q calc q = q"
    by (simp add: clamp_q_def)
  ultimately show ?thesis using u above full by blast
qed

lemma largest_example: "largest_bucket \<lparr>deduct_curves = [], cdv_curves = EXAMPLE_CDV_CURVES\<rparr> = 7"
  by (simp add: largest_bucket_def EXAMPLE_CDV_CURVES_def)

theorem get_cdv_clamp_witness:
  "cdv_curves \<lparr>deduct_curves = [], cdv_curves = EXAMPLE_CDV_CURVES\<rparr> \<noteq> [] \<and>
   largest_bucket \<lparr>deduct_curves = [], cdv_curves = EXAMPLE_CDV_CURVES\<rparr> = 7 \<and>
   clamp_q \<lparr>deduct_curves = [], cdv_curves = EXAMPLE_CDV_CURVES\<rparr> 9 = 7 \<and>
   get_cdv \<lparr>deduct_curves = [], cdv_curves = EXAMPLE_CDV_CURVES\<rparr> 10 9
     = get_cdv_curve [(0, 0), (10, 3), (20, 6), (50, 17), (100, 33), (150, 47), (200, 60)] 10"
proof -
  let ?c = "\<lparr>deduct_curves = [], cdv_curves = EXAMPLE_CDV_CURVES\<rparr>"
  have ne: "cdv_curves ?c \<noteq> []" by (simp add: EXAMPLE_CDV_CURVES_def)
  have l: "largest_bucket ?c = 7" by (rule largest_example)
  have m: "map_of (cdv_curves ?c) 7 = Some [(0, 0), (10, 3), (20, 6), (50, 17), (100, 33), (150, 47), (200, 60)]"
    by (simp add: EXAMPLE_CDV_CURVES_def)
  show ?thesis
    using get_cdv_clamp[OF ne, of 10 9] ne l m by (simp add: clamp_q_def)
qed

subsection \<open>The CDV iteration\<close>

lemma count_q_update:
  assumes "i < length dvs" "dvs ! i > 2"
  shows "Suc (count_q (dvs[i := 2])) = count_q dvs"
proof -
  have "count_q (take i dvs @ dvs ! i # drop (Suc i) dvs)
          = Suc (count_q (take i dvs @ 2 # drop (Suc i) dvs))"
    using assms(2) by (simp add: count_q_def)
  then show ?thesis
    using assms(1) by (simp add: upd_conv_take_nth_drop id_take_nth_drop [symmetric])
qed

lemma replace_lowest_index:
  "n \<le> length dvs \<Longrightarrow> \<exists>i<n. dvs ! i > 2 \<Longrightarrow>
   \<exists>i<n. dvs ! i > 2 \<and> (\<forall>j. i < j \<and> j < n \<longrightarrow> dvs ! j \<le> 2) \<and> replace_lowest n dvs = dvs[i := 2]"
proof (induction n)
  case 0
  then show ?case by simp
next
  case (Suc n)
  show ?case
  proof (cases "dvs ! n > 2")
    case True
    then have "replace_lowest (Suc n) dvs = dvs[n := 2]" by simp
    with True show ?thesis by (intro exI[of _ n]) auto
  next
    case False
    with Suc.prems(2) have "\<exists>i<n. dvs ! i > 2"
      by (metis less_Suc_eq)
    with Suc.IH Suc.prems(1) obtain i where i: "i < n" "dvs ! i > 2"
      "\<forall>j. i < j \<and> j < n \<longrightarrow> dvs ! j \<le> 2" "replace_lowest n dvs = dvs[i := 2]"
      by auto
    have "\<forall>j. i < j \<and> j < Suc n \<longrightarrow> dvs ! j \<le> 2"
      using i(3) False by (auto simp: less_Suc_eq)
    with i False show ?thesis by (intro exI[of _ i]) auto
  qed
qed

lemma count_q_pos_ex: "count_q dvs > 0 \<Longrightarrow> \<exists>i<length dvs. dvs ! i > 2"
proof -
  assume "count_q dvs > 0"
  then have "filter (\<lambda>dv. dv > 2) dvs \<noteq> []" by (simp add: count_q_def)
  then obtain v where "v \<in> set dvs" "v > 2" by (auto simp: filter_empty_conv)
  then show ?thesis by (auto simp: in_set_conv_nth)
qed

lemma replace_lowest_rightmost:
  assumes "count_q dvs > 0"
  shows "\<exists>i<length dvs. dvs ! i > 2 \<and> (\<forall>j. i < j \<and> j < length dvs \<longrightarrow> dvs ! j \<le> 2) \<and>
           replace_lowest (length dvs) dvs = dvs[i := 2]"
  using replace_lowest_index[of "length dvs" dvs] count_q_pos_ex[OF assms] by simp

lemma replace_lowest_count:
  assumes "count_q dvs > 0"
  shows "Suc (count_q (replace_lowest (length dvs) dvs)) = count_q dvs"
proof -
  obtain i where "i < length dvs" "dvs ! i > 2" "replace_lowest (length dvs) dvs = dvs[i := 2]"
    using replace_lowest_rightmost[OF assms] by auto
  then show ?thesis using count_q_update[of i dvs] by simp
qed

lemma replace_lowest_length: "length (replace_lowest n dvs) = length dvs"
  by (induction n) auto

lemma count_q_card: "count_q dvs = card {i. i < length dvs \<and> dvs ! i > 2}"
  unfolding count_q_def by (rule length_filter_conv_card)

lemma cdv_iteration_unfold:
  "cdv_iteration calc dvs cdvs =
     (case get_cdv calc (sum_list dvs) (int (max 1 (count_q dvs))) of
        Inl e \<Rightarrow> Inl e
      | Inr cdv \<Rightarrow>
          if count_q dvs \<le> 1 then Inr (dvs, cdvs @ [cdv])
          else cdv_iteration calc (replace_lowest (length dvs) dvs) (cdvs @ [cdv]))"
proof -
  have q: "(if count_q dvs = 0 then 1 else count_q dvs) = max 1 (count_q dvs)" by simp
  have le: "max 1 (count_q dvs) \<le> 1 \<longleftrightarrow> count_q dvs \<le> 1" by simp
  show ?thesis
    by (subst cdv_iteration.simps) (simp only: Let_def q le)
qed

lemma cdv_iteration_history:
  "cdv_iteration calc dvs cdvs = Inr (ws, cdvs') \<Longrightarrow>
   length cdvs' = length cdvs + max 1 (count_q dvs) \<and> take (length cdvs) cdvs' = cdvs \<and>
   length ws = length dvs \<and> count_q ws \<le> 1"
proof (induction calc dvs cdvs rule: cdv_iteration.induct)
  case (1 calc dvs cdvs)
  from "1.prems" obtain cdv where g: "get_cdv calc (sum_list dvs) (int (max 1 (count_q dvs))) = Inr cdv"
    by (subst (asm) cdv_iteration_unfold) (auto split: sum.splits)
  show ?case
  proof (cases "count_q dvs \<le> 1")
    case True
    with "1.prems" g show ?thesis
      by (subst (asm) cdv_iteration_unfold) auto
  next
    case False
    with "1.prems" g have r: "cdv_iteration calc (replace_lowest (length dvs) dvs) (cdvs @ [cdv]) = Inr (ws, cdvs')"
      by (subst (asm) cdv_iteration_unfold) auto
    have q: "(if count_q dvs = 0 then 1 else count_q dvs) = max 1 (count_q dvs)" by simp
    have nle: "\<not> (if count_q dvs = 0 then 1 else count_q dvs) \<le> 1" using False by simp
    have g': "get_cdv calc (sum_list dvs) (int (if count_q dvs = 0 then 1 else count_q dvs)) = Inr cdv"
      using g by (simp only: q)
    have ih: "length cdvs' = length (cdvs @ [cdv]) + max 1 (count_q (replace_lowest (length dvs) dvs)) \<and>
       take (length (cdvs @ [cdv])) cdvs' = cdvs @ [cdv] \<and>
       length ws = length (replace_lowest (length dvs) dvs) \<and> count_q ws \<le> 1"
      using "1.IH"[OF refl refl refl g' refl nle r] .
    have c: "Suc (count_q (replace_lowest (length dvs) dvs)) = count_q dvs"
      using False by (intro replace_lowest_count) simp
    have "take (length cdvs) cdvs' = take (length cdvs) (take (length (cdvs @ [cdv])) cdvs')"
      by (simp add: min_def)
    also have "\<dots> = cdvs" using ih by simp
    finally have t: "take (length cdvs) cdvs' = cdvs" .
    from ih c False t show ?thesis by (auto simp: replace_lowest_length)
  qed
qed


lemma cdv_iteration_fuel_enough:
  "max 1 (count_q dvs) \<le> n \<Longrightarrow>
   cdv_iteration_fuel n calc dvs cdvs = Some (cdv_iteration calc dvs cdvs)"
proof (induction n arbitrary: dvs cdvs)
  case 0
  then show ?case by simp
next
  case (Suc n)
  have q: "(if count_q dvs = 0 then 1 else count_q dvs) = max 1 (count_q dvs)" by simp
  have le: "max 1 (count_q dvs) \<le> 1 \<longleftrightarrow> count_q dvs \<le> 1" by simp
  have step: "cdv_iteration_fuel (Suc n) calc dvs cdvs =
     (case get_cdv calc (sum_list dvs) (int (max 1 (count_q dvs))) of
        Inl e \<Rightarrow> Some (Inl e)
      | Inr cdv \<Rightarrow>
          if count_q dvs \<le> 1 then Some (Inr (dvs, cdvs @ [cdv]))
          else cdv_iteration_fuel n calc (replace_lowest (length dvs) dvs) (cdvs @ [cdv]))"
    by (simp only: cdv_iteration_fuel.simps Let_def q le)
  show ?case
  proof (cases "get_cdv calc (sum_list dvs) (int (max 1 (count_q dvs)))")
    case (Inl e)
    then show ?thesis
      by (subst cdv_iteration_unfold, subst step) simp
  next
    case (Inr cdv)
    show ?thesis
    proof (cases "count_q dvs \<le> 1")
      case True
      with Inr show ?thesis
        by (subst cdv_iteration_unfold, subst step) simp
    next
      case False
      then have "Suc (count_q (replace_lowest (length dvs) dvs)) = count_q dvs"
        by (intro replace_lowest_count) simp
      with Suc.prems False have "max 1 (count_q (replace_lowest (length dvs) dvs)) \<le> n"
        by simp
      then have "cdv_iteration_fuel n calc (replace_lowest (length dvs) dvs) (cdvs @ [cdv])
                 = Some (cdv_iteration calc (replace_lowest (length dvs) dvs) (cdvs @ [cdv]))"
        by (rule Suc.IH)
      with Inr False show ?thesis
        by (subst cdv_iteration_unfold, subst step) simp
    qed
  qed
qed




lemma replace_lowest_sorted:
  fixes dvs :: "real list"
  assumes s: "sorted (rev dvs)" and i: "i < length dvs" "2 < dvs ! i"
    and r: "\<forall>j. i < j \<and> j < length dvs \<longrightarrow> dvs ! j \<le> 2"
  shows "(\<forall>j<length dvs. 2 < dvs ! j \<longrightarrow> dvs ! i \<le> dvs ! j) \<and> sorted (rev (dvs[i := 2]))"
proof
  have mono: "dvs ! b \<le> dvs ! a" if "a \<le> b" "b < length dvs" for a b
    using s that by (simp add: sorted_rev_iff_nth_mono)
  show "\<forall>j<length dvs. 2 < dvs ! j \<longrightarrow> dvs ! i \<le> dvs ! j"
  proof (intro allI impI)
    fix j assume j: "j < length dvs" "2 < dvs ! j"
    with r have "j \<le> i" by (meson not_le_imp_less not_less)
    then show "dvs ! i \<le> dvs ! j" using mono i by simp
  qed
  show "sorted (rev (dvs[i := 2]))"
    unfolding sorted_rev_iff_nth_mono
  proof (intro allI impI)
    fix a b assume ab: "a \<le> b" "b < length (dvs[i := 2])"
    then have b: "b < length dvs" by simp
    consider "a = i" "b = i" | "a = i" "i < b" | "a < i" "b = i" | "a \<noteq> i" "b \<noteq> i"
      using ab(1) by linarith
    then show "dvs[i := 2] ! b \<le> dvs[i := 2] ! a"
    proof cases
      case 1 then show ?thesis by simp
    next
      case 2
      with r b have "dvs ! b \<le> 2" by simp
      with 2 i show ?thesis by simp
    next
      case 3
      have "dvs ! i \<le> dvs ! a" using mono[of a i] 3 i by simp
      with 3 i show ?thesis by simp
    next
      case 4
      with mono[OF ab(1) b] show ?thesis by simp
    qed
  qed
qed

text \<open>
  Claim C2. One round of the loop: \<open>q\<close> is the number of working-set entries above 2.0,
  with 0 counted as 1; the total deduct value is the sum of the working set; the CDV of the
  round is appended to the history; the loop leaves when \<open>q \<le> 1\<close>, and otherwise goes on
  with the working set in which the rightmost entry above 2.0 has become 2.0. On a
  descending working set that entry is the lowest one above 2.0, and the set stays
  descending.
\<close>

theorem cdv_iteration_round:
  "cdv_iteration calc dvs cdvs =
     (case get_cdv calc (sum_list dvs) (int (if count_q dvs = 0 then 1 else count_q dvs)) of
        Inl e \<Rightarrow> Inl e
      | Inr cdv \<Rightarrow>
          if (if count_q dvs = 0 then 1 else count_q dvs) \<le> 1 then Inr (dvs, cdvs @ [cdv])
          else cdv_iteration calc (replace_lowest (length dvs) dvs) (cdvs @ [cdv])) \<and>
   count_q dvs = card {i. i < length dvs \<and> 2 < dvs ! i} \<and>
   (1 < count_q dvs \<longrightarrow>
      (\<exists>i<length dvs. 2 < dvs ! i \<and> (\<forall>j. i < j \<and> j < length dvs \<longrightarrow> dvs ! j \<le> 2) \<and>
         replace_lowest (length dvs) dvs = dvs[i := 2] \<and>
         (sorted (rev dvs) \<longrightarrow>
            (\<forall>j<length dvs. 2 < dvs ! j \<longrightarrow> dvs ! i \<le> dvs ! j) \<and> sorted (rev (dvs[i := 2])))))"
proof (intro conjI impI)
  show "cdv_iteration calc dvs cdvs =
     (case get_cdv calc (sum_list dvs) (int (if count_q dvs = 0 then 1 else count_q dvs)) of
        Inl e \<Rightarrow> Inl e
      | Inr cdv \<Rightarrow>
          if (if count_q dvs = 0 then 1 else count_q dvs) \<le> 1 then Inr (dvs, cdvs @ [cdv])
          else cdv_iteration calc (replace_lowest (length dvs) dvs) (cdvs @ [cdv]))"
    by (subst cdv_iteration.simps) (simp only: Let_def)
  show "count_q dvs = card {i. i < length dvs \<and> 2 < dvs ! i}"
    by (rule count_q_card)
  assume "1 < count_q dvs"
  then have "0 < count_q dvs" by simp
  then obtain i where i: "i < length dvs" "2 < dvs ! i"
    "\<forall>j. i < j \<and> j < length dvs \<longrightarrow> dvs ! j \<le> 2" "replace_lowest (length dvs) dvs = dvs[i := 2]"
    using replace_lowest_rightmost by blast
  have "sorted (rev dvs) \<longrightarrow>
            (\<forall>j<length dvs. 2 < dvs ! j \<longrightarrow> dvs ! i \<le> dvs ! j) \<and> sorted (rev (dvs[i := 2]))"
    using replace_lowest_sorted[OF _ i(1,2,3)] by blast
  with i show "\<exists>i<length dvs. 2 < dvs ! i \<and> (\<forall>j. i < j \<and> j < length dvs \<longrightarrow> dvs ! j \<le> 2) \<and>
         replace_lowest (length dvs) dvs = dvs[i := 2] \<and>
         (sorted (rev dvs) \<longrightarrow>
            (\<forall>j<length dvs. 2 < dvs ! j \<longrightarrow> dvs ! i \<le> dvs ! j) \<and> sorted (rev (dvs[i := 2])))"
    by blast
qed

theorem cdv_iteration_round_witness:
  "1 < count_q [10, 5, 3] \<and> sorted (rev [10, 5, 3 :: real]) \<and>
   replace_lowest (length [10, 5, 3 :: real]) [10, 5, 3] = [10, 5, 2] \<and>
   (\<exists>i<length [10, 5, 3 :: real]. 2 < [10, 5, 3 :: real] ! i \<and>
      replace_lowest (length [10, 5, 3 :: real]) [10, 5, 3] = [10, 5, 3][i := 2] \<and>
      (\<forall>j<length [10, 5, 3 :: real]. 2 < [10, 5, 3 :: real] ! j \<longrightarrow> [10, 5, 3] ! i \<le> [10, 5, 3 :: real] ! j))"
proof -
  have c: "1 < count_q [10, 5, 3]" by (simp add: count_q_def)
  have s: "sorted (rev [10, 5, 3 :: real])" by simp
  have r: "replace_lowest (length [10, 5, 3 :: real]) [10, 5, 3] = [10, 5, 2]"
    by (simp add: numeral_3_eq_3)
  from cdv_iteration_round[of "\<lparr>deduct_curves = [], cdv_curves = EXAMPLE_CDV_CURVES\<rparr>" "[10, 5, 3]" "[]"] c s
  have "\<exists>i<length [10, 5, 3 :: real]. 2 < [10, 5, 3 :: real] ! i \<and>
      replace_lowest (length [10, 5, 3 :: real]) [10, 5, 3] = [10, 5, 3][i := 2] \<and>
      (\<forall>j<length [10, 5, 3 :: real]. 2 < [10, 5, 3 :: real] ! j \<longrightarrow> [10, 5, 3] ! i \<le> [10, 5, 3 :: real] ! j)"
    by blast
  with c s r show ?thesis by blast
qed

subsection \<open>The sample calculation\<close>

lemma py_int_max: "max 1 (py_int r) = max 1 \<lfloor>r\<rfloor>"
proof (cases "0 \<le> r")
  case True
  then show ?thesis by (simp add: py_int_def)
next
  case False
  then have "\<lceil>r\<rceil> \<le> 0" "\<lfloor>r\<rfloor> \<le> 0"
    by (simp_all add: ceiling_le_iff floor_le_iff)
  with False show ?thesis by (simp add: py_int_def)
qed

lemma calculate_max_deduct_values_eq: "calculate_max_deduct_values hdv = max_allowed hdv"
  unfolding calculate_max_deduct_values_def MAX_DEDUCT_VALUES_FORMULA_def max_allowed_def Let_def
  by (simp only: py_int_max not_True_eq_False if_False)

lemma hd_rev_sort: "xs \<noteq> [] \<Longrightarrow> hd (rev (sort xs)) = Max (set (xs :: real list))"
proof -
  assume ne: "xs \<noteq> []"
  let ?l = "rev (sort xs)"
  have ne': "?l \<noteq> []" using ne by (metis length_sort length_0_conv rev_is_Nil_conv)
  have s: "sorted (rev ?l)" by simp
  have "Max (set ?l) = hd ?l"
  proof (rule Max_eqI)
    show "finite (set ?l)" by simp
    show "hd ?l \<in> set ?l" using ne' by (rule hd_in_set)
    fix y assume "y \<in> set ?l"
    then obtain j where j: "j < length ?l" "?l ! j = y" by (metis in_set_conv_nth)
    have "?l ! j \<le> ?l ! 0"
      using s j(1) unfolding sorted_rev_iff_nth_mono by blast
    with j ne' show "y \<le> hd ?l" by (simp add: hd_conv_nth)
  qed
  then show ?thesis by simp
qed

lemma source_cap_eq:
  assumes "collected \<noteq> []"
  shows "take (nat (calculate_max_deduct_values (hd (rev (sort collected))))) (rev (sort collected))
         = capped_deduct_values collected"
  using assms by (simp add: capped_deduct_values_def calculate_max_deduct_values_eq hd_rev_sort)

lemma cdv_iteration_nonempty:
  "cdv_iteration calc dvs [] = Inr (ws, cdvs) \<Longrightarrow> cdvs \<noteq> []"
  using cdv_iteration_history[of calc dvs "[]" ws cdvs] by auto

lemma calculate_sample_pci_positive:
  assumes "0 < sample_area" "obss \<noteq> []"
    and "deduct_values_loop calc sample_area obss [] = Inr collected" "collected \<noteq> []"
  shows "calculate_sample_pci calc obss sample_area =
     (case cdv_iteration calc (capped_deduct_values collected) [] of
        Inl e \<Rightarrow> Inl e
      | Inr (ws, cdvs) \<Rightarrow>
          Inr \<lparr>pci = max 0 (min 100 (100 - Max (set cdvs))),
               rating = get_pci_rating (max 0 (min 100 (100 - Max (set cdvs)))),
               deduct_values = capped_deduct_values collected,
               max_cdv = Max (set cdvs),
               iteration_cdvs = cdvs\<rparr>)"
proof (cases "cdv_iteration calc (capped_deduct_values collected) []")
  case (Inl e)
  with assms show ?thesis
    by (simp add: calculate_sample_pci_def Let_def new_list_def source_cap_eq)
next
  case (Inr r)
  obtain ws cdvs where r: "r = (ws, cdvs)" by (cases r)
  with Inr have "cdvs \<noteq> []" by (auto dest: cdv_iteration_nonempty)
  then have "py_max cdvs = Inr (Max (set cdvs))" by (rule py_max_Max)
  with Inr r assms show ?thesis
    by (simp add: calculate_sample_pci_def Let_def new_list_def source_cap_eq)
qed





lemma capped_length: "int (length (capped_deduct_values collected)) \<le> max_allowed (Max (set collected))"
  by (simp add: capped_deduct_values_def max_allowed_def)


lemma new_calculator_example: "new_calculator = Inr example_calculator"
  by code_simp

lemma ex_collected:
  "deduct_values_loop example_calculator 2500 example_observations [] = Inr [172 / 5, 8]"
  by code_simp


lemma ex_result:
  "calculate_sample_pci example_calculator example_observations 2500 = Inr example_result"
  by code_simp

lemma ex_iteration:
  "cdv_iteration example_calculator [10, 5, 3] [] = Inr ([10, 2, 2], [54 / 5, 129 / 10, 14])"
  by code_simp





text \<open>
  Claim C10. The \<open>deduct_values\<close> of the result is the capped descending list as it stood
  before the iteration. The replacements by 2.0 happen in the working copy only: the list
  the loop ends with has at most one entry above 2.0 and differs from the reported list
  whenever the capped list has more than one.
\<close>

theorem sample_pci_reports_original:
  assumes "0 < sample_area"
    and "deduct_values_loop calc sample_area obss [] = Inr collected" and "collected \<noteq> []"
  shows "\<forall>res. calculate_sample_pci calc obss sample_area = Inr res \<longrightarrow>
           deduct_values res = capped_deduct_values collected \<and>
           (\<exists>ws. cdv_iteration calc (capped_deduct_values collected) [] = Inr (ws, iteration_cdvs res) \<and>
                 count_q ws \<le> 1 \<and>
                 (1 < count_q (capped_deduct_values collected) \<longrightarrow> ws \<noteq> deduct_values res))"
proof (intro allI impI)
  fix res assume r: "calculate_sample_pci calc obss sample_area = Inr res"
  have ne: "obss \<noteq> []" using assms(2,3) by auto
  note u = calculate_sample_pci_positive[OF assms(1) ne assms(2,3)]
  from r u obtain ws cdvs where
    it: "cdv_iteration calc (capped_deduct_values collected) [] = Inr (ws, cdvs)"
    and dv: "deduct_values res = capped_deduct_values collected" and cd: "iteration_cdvs res = cdvs"
    by (auto split: sum.splits)
  from cdv_iteration_history[OF it] have q: "count_q ws \<le> 1" by simp
  then have "1 < count_q (capped_deduct_values collected) \<longrightarrow> ws \<noteq> deduct_values res"
    using dv by auto
  with it dv cd q show "deduct_values res = capped_deduct_values collected \<and>
           (\<exists>ws. cdv_iteration calc (capped_deduct_values collected) [] = Inr (ws, iteration_cdvs res) \<and>
                 count_q ws \<le> 1 \<and>
                 (1 < count_q (capped_deduct_values collected) \<longrightarrow> ws \<noteq> deduct_values res))"
    by blast
qed

theorem sample_pci_reports_original_witness:
  "(0 :: real) < 2500 \<and>
   deduct_values_loop example_calculator 2500 example_observations [] = Inr [172 / 5, 8] \<and>
   [172 / 5, 8 :: real] \<noteq> [] \<and>
   calculate_sample_pci example_calculator example_observations 2500 = Inr example_result \<and>
   deduct_values example_result = capped_deduct_values [172 / 5, 8] \<and>
   (\<exists>ws. cdv_iteration example_calculator (capped_deduct_values [172 / 5, 8]) []
            = Inr (ws, iteration_cdvs example_result) \<and>
         (1 < count_q (capped_deduct_values [172 / 5, 8]) \<longrightarrow> ws \<noteq> deduct_values example_result))"
proof -
  have a: "(0 :: real) < 2500" by simp
  have n: "[172 / 5, 8 :: real] \<noteq> []" by simp
  from sample_pci_reports_original[OF a ex_collected n] ex_result a n ex_collected
  show ?thesis by blast
qed

text \<open>
  Claim C5. The loop leaves after at most \<open>max 1 (count_q dvs)\<close> rounds, whatever the
  tables hold: that many rounds of fuel always suffice. Each round with \<open>q > 1\<close> lowers
  the number of entries above 2.0 by exactly one; a returned history has grown by
  \<open>max 1 (count_q dvs)\<close> entries, at most the initial count plus one; and on the capped
  list of a sample \<open>m\<close> rounds suffice.
\<close>

theorem cdv_iteration_terminates:
  "(max 1 (count_q dvs) \<le> n \<longrightarrow>
      cdv_iteration_fuel n calc dvs cdvs = Some (cdv_iteration calc dvs cdvs)) \<and>
   (1 < count_q dvs \<longrightarrow> Suc (count_q (replace_lowest (length dvs) dvs)) = count_q dvs) \<and>
   (\<forall>ws cdvs'. cdv_iteration calc dvs cdvs = Inr (ws, cdvs') \<longrightarrow>
      length cdvs' = length cdvs + max 1 (count_q dvs) \<and>
      length cdvs' \<le> length cdvs + (count_q dvs + 1)) \<and>
   cdv_iteration_fuel (nat (max_allowed (Max (set collected)))) calc (capped_deduct_values collected) []
     = Some (cdv_iteration calc (capped_deduct_values collected) [])"
proof -
  have a: "max 1 (count_q dvs) \<le> n \<longrightarrow>
      cdv_iteration_fuel n calc dvs cdvs = Some (cdv_iteration calc dvs cdvs)"
    by (simp add: cdv_iteration_fuel_enough)
  have b: "1 < count_q dvs \<longrightarrow> Suc (count_q (replace_lowest (length dvs) dvs)) = count_q dvs"
    by (simp add: replace_lowest_count)
  have c: "length cdvs' = length cdvs + max 1 (count_q dvs) \<and>
      length cdvs' \<le> length cdvs + (count_q dvs + 1)"
    if "cdv_iteration calc dvs cdvs = Inr (ws, cdvs')" for ws cdvs'
    using cdv_iteration_history[OF that] by auto
  have "count_q (capped_deduct_values collected) \<le> length (capped_deduct_values collected)"
    by (simp add: count_q_def)
  moreover have "1 \<le> max_allowed (Max (set collected))" by (simp add: max_allowed_def)
  ultimately have "max 1 (count_q (capped_deduct_values collected)) \<le> nat (max_allowed (Max (set collected)))"
    using capped_length[of collected] by linarith
  then have d: "cdv_iteration_fuel (nat (max_allowed (Max (set collected)))) calc (capped_deduct_values collected) []
     = Some (cdv_iteration calc (capped_deduct_values collected) [])"
    by (rule cdv_iteration_fuel_enough)
  from a b c d show ?thesis by blast
qed

theorem cdv_iteration_terminates_witness:
  "max 1 (count_q [10, 5, 3]) \<le> 3 \<and> 1 < count_q [10, 5, 3] \<and>
   cdv_iteration example_calculator [10, 5, 3] [] = Inr ([10, 2, 2], [54 / 5, 129 / 10, 14]) \<and>
   cdv_iteration_fuel 3 example_calculator [10, 5, 3] []
     = Some (cdv_iteration example_calculator [10, 5, 3] []) \<and>
   Suc (count_q (replace_lowest (length [10, 5, 3 :: real]) [10, 5, 3])) = count_q [10, 5, 3] \<and>
   length [54 / 5, 129 / 10, 14 :: real] = length ([] :: real list) + max 1 (count_q [10, 5, 3])"
proof -
  have a: "max 1 (count_q [10, 5, 3]) \<le> 3" by (simp add: count_q_def)
  have b: "1 < count_q [10, 5, 3]" by (simp add: count_q_def)
  from cdv_iteration_terminates[of "[10, 5, 3]" 3 example_calculator "[]"] a b ex_iteration
  show ?thesis by blast
qed

subsection \<open>Section aggregation\<close>


lemma weighted_sum_loop_first_error:
  "\<forall>su\<in>set pre. \<exists>r. sample_result calc su = Inr r \<Longrightarrow> sample_result calc bad = Inl e \<Longrightarrow>
   weighted_sum_loop calc (pre @ bad # post) acc = Inl e"
proof (induction pre arbitrary: acc)
  case Nil
  then show ?case by (simp add: sample_result_def)
next
  case (Cons su rest)
  then obtain r where r: "calculate_sample_pci calc (observations su) (area su) = Inr r"
    by (auto simp: sample_result_def)
  have "weighted_sum_loop calc (rest @ bad # post) (acc + pci r * area su) = Inl e"
    using Cons.prems by (intro Cons.IH) simp_all
  with r show ?case by simp
qed

lemma weighted_sum_loop_some_error:
  "\<exists>su\<in>set units. \<exists>e. sample_result calc su = Inl e \<Longrightarrow>
   \<exists>e. weighted_sum_loop calc units acc = Inl e"
proof (induction units arbitrary: acc)
  case Nil
  then show ?case by simp
next
  case (Cons su rest)
  show ?case
  proof (cases "calculate_sample_pci calc (observations su) (area su)")
    case (Inl e)
    then show ?thesis by simp
  next
    case (Inr r)
    with Cons.prems have "\<exists>su\<in>set rest. \<exists>e. sample_result calc su = Inl e"
      by (auto simp: sample_result_def)
    then have "\<exists>e. weighted_sum_loop calc rest (acc + pci r * area su) = Inl e"
      by (rule Cons.IH)
    with Inr show ?thesis by simp
  qed
qed

lemma sample_result_nonpositive_area:
  "area su \<le> 0 \<Longrightarrow> sample_result calc su = Inl SampleAreaNotPositive"
  by (simp add: sample_result_def calculate_sample_pci_def)




text \<open>
  Claim C9, as stated, fails: a section with a zero-area unit next to a unit of area 2500
  does not compute; \<^verbatim>\<open>calculate_sample_pci\<close> rejects the zero-area unit.
\<close>

theorem section_pci_zero_area_counterexample:
  "area (sample_units mixed_section ! 0) = 0 \<and> area (sample_units mixed_section ! 1) = 2500 \<and>
   calculate_section_pci mixed_section example_calculator = Inl SampleAreaNotPositive"
  by (simp add: mixed_section_def calculate_section_pci_def calculate_sample_pci_def)

text \<open>
  Claim C9, amended. In a section of non-zero total area, a unit of area zero (or below)
  makes the section computation raise: when the units before it compute, the error is the
  invalid-input error of \<^verbatim>\<open>calculate_sample_pci\<close> for a non-positive sample area.
\<close>

theorem section_pci_rejects_zero_area:
  assumes "sum_list (map area (sample_units s)) \<noteq> 0"
    and "sample_units s = pre @ bad # post" and "area bad \<le> 0"
  shows "(\<exists>e. calculate_section_pci s calc = Inl e) \<and>
         ((\<forall>su\<in>set pre. \<exists>r. sample_result calc su = Inr r) \<longrightarrow>
            calculate_section_pci s calc = Inl SampleAreaNotPositive)"
proof -
  have bad: "sample_result calc bad = Inl SampleAreaNotPositive"
    using assms(3) by (rule sample_result_nonpositive_area)
  have ne: "sample_units s \<noteq> []" using assms(2) by simp
  have "\<exists>su\<in>set (sample_units s). \<exists>e. sample_result calc su = Inl e"
    using bad assms(2) by auto
  then obtain e where "weighted_sum_loop calc (sample_units s) 0 = Inl e"
    using weighted_sum_loop_some_error[of "sample_units s" calc 0] by blast
  then have a: "\<exists>e. calculate_section_pci s calc = Inl e"
    using ne assms(1) by (simp add: calculate_section_pci_def Let_def)
  have b: "calculate_section_pci s calc = Inl SampleAreaNotPositive"
    if "\<forall>su\<in>set pre. \<exists>r. sample_result calc su = Inr r"
  proof -
    have "weighted_sum_loop calc (sample_units s) 0 = Inl SampleAreaNotPositive"
      unfolding assms(2) using that bad by (rule weighted_sum_loop_first_error)
    then show ?thesis
      using ne assms(1) by (simp add: calculate_section_pci_def Let_def)
  qed
  from a b show ?thesis by blast
qed

theorem section_pci_rejects_zero_area_witness:
  "sum_list (map area (sample_units mixed_section)) \<noteq> 0 \<and>
   sample_units mixed_section
     = [] @ \<lparr>unit_id = ''SU-000'', area = 0, observations = []\<rparr>
          # [\<lparr>unit_id = ''SU-001'', area = 2500, observations = example_observations\<rparr>] \<and>
   area \<lparr>unit_id = ''SU-000'', area = 0, observations = []\<rparr> \<le> 0 \<and>
   (\<exists>e. calculate_section_pci mixed_section example_calculator = Inl e)"
proof -
  have a: "sum_list (map area (sample_units mixed_section)) \<noteq> 0"
    by (simp add: mixed_section_def)
  have b: "sample_units mixed_section
     = [] @ \<lparr>unit_id = ''SU-000'', area = 0, observations = []\<rparr>
          # [\<lparr>unit_id = ''SU-001'', area = 2500, observations = example_observations\<rparr>]"
    by (simp add: mixed_section_def)
  have c: "area \<lparr>unit_id = ''SU-000'', area = 0, observations = []\<rparr> \<le> 0" by simp
  from section_pci_rejects_zero_area[OF a b c, of example_calculator] a b c
  show ?thesis by blast
qed

subsection \<open>Range of the PCI\<close>

















end
